theory Spec2Isabelle
  imports Main
begin

section \<open>JavaScript values\<close>

text \<open>
  The values that reach \<^verbatim>\<open>src/index.js\<close>: option fields, keys and stored payloads.
  Numbers are the integers and NaN (fractions and infinities are not modelled), strings
  are lists of characters, \<open>JObj\<close> is a plain object known by its reference only.
  A property that is absent from an object reads as \<open>JUndefined\<close>, as in JavaScript.
\<close>

datatype jsval =
    JUndefined
  | JNull
  | JBool bool
  | JNum int
  | JNaN
  | JStr string
  | JObj nat

text \<open>ToBoolean: what \<^verbatim>\<open>if (v)\<close>, \<^verbatim>\<open>v || w\<close> and \<^verbatim>\<open>v && w\<close> test.\<close>

fun truthy :: "jsval \<Rightarrow> bool" where
  "truthy JUndefined = False"
| "truthy JNull = False"
| "truthy (JBool b) = b"
| "truthy (JNum n) = (n \<noteq> 0)"
| "truthy JNaN = False"
| "truthy (JStr s) = (s \<noteq> [])"
| "truthy (JObj r) = True"

text \<open>\<^verbatim>\<open>a || b\<close>: the left operand when it is truthy, the right one otherwise.\<close>

definition js_or :: "jsval \<Rightarrow> jsval \<Rightarrow> jsval" where
  "js_or a b = (if truthy a then a else b)"

text \<open>\<^verbatim>\<open>typeof v !== 'undefined'\<close>.\<close>

definition is_defined :: "jsval \<Rightarrow> bool" where
  "is_defined v = (v \<noteq> JUndefined)"

section \<open>The range builder \<^verbatim>\<open>getRange\<close>\<close>

text \<open>
  The options object of \<^verbatim>\<open>read\<close>. A field the caller left out holds \<open>JUndefined\<close>.
\<close>

record options =
  lt :: jsval
  lte :: jsval
  gt :: jsval
  gte :: jsval
  limit :: jsval
  reverse :: jsval

text \<open>\<^verbatim>\<open>read (opts = {})\<close>: the default options object has no field.\<close>

definition no_options :: options where
  "no_options = \<lparr>lt = JUndefined, lte = JUndefined, gt = JUndefined, gte = JUndefined,
     limit = JUndefined, reverse = JUndefined\<rparr>"

text \<open>
  What \<^verbatim>\<open>getRange\<close> hands to the engine: one of the three constructors of
  \<^verbatim>\<open>IDBKeyRange\<close> with its arguments in call order,
  \<^verbatim>\<open>bound(lower, upper, lowerOpen, upperOpen)\<close>, \<^verbatim>\<open>upperBound(upper, open)\<close>,
  \<^verbatim>\<open>lowerBound(lower, open)\<close>. An open bound excludes the bound itself.
\<close>

datatype range =
    Bound jsval jsval bool bool
  | UpperBound jsval bool
  | LowerBound jsval bool

text \<open>
  \<^verbatim>\<open>getRange\<close>, lines 22 to 46. \<open>None\<close> is the \<^verbatim>\<open>undefined\<close> the function returns
  when it falls off its last \<^verbatim>\<open>if\<close>.
\<close>

definition getRange :: "options \<Rightarrow> range option" where
  "getRange o' =
     (let exLower = is_defined (lt o');
          exUpper = is_defined (gt o')
      in if truthy (js_or (lte o') (lt o')) \<and> truthy (js_or (gte o') (gt o'))
         then Some (Bound (js_or (gte o') (gt o')) (js_or (lte o') (lt o')) exLower exUpper)
         else if truthy (js_or (lte o') (lt o'))
         then Some (UpperBound (js_or (lte o') (lt o')) exLower)
         else if truthy (js_or (gte o') (gt o'))
         then Some (LowerBound (js_or (gte o') (gt o')) exUpper)
         else None)"

section \<open>The storage engine\<close>

text \<open>
  IndexedDB is not part of the repository. It is modelled by what the code relies on:
  an object store is a list of records in key order with no key twice, a request ends in
  one event (success or error), and a cursor visits the keys of the range in order.
  Keys are the numbers and the strings, numbers before strings (dates, binary keys and
  arrays are not modelled).
\<close>

datatype key = KNum int | KStr string

fun str_less :: "string \<Rightarrow> string \<Rightarrow> bool" where
  "str_less [] [] = False"
| "str_less [] (y # ys) = True"
| "str_less (x # xs) [] = False"
| "str_less (x # xs) (y # ys) =
     ((of_char x :: nat) < of_char y \<or> (x = y \<and> str_less xs ys))"

fun key_less :: "key \<Rightarrow> key \<Rightarrow> bool" where
  "key_less (KNum a) (KNum b) = (a < b)"
| "key_less (KNum a) (KStr t) = True"
| "key_less (KStr s) (KNum b) = False"
| "key_less (KStr s) (KStr t) = str_less s t"

text \<open>The engine's check that a value is a valid key.\<close>

fun to_key :: "jsval \<Rightarrow> key option" where
  "to_key (JNum n) = Some (KNum n)"
| "to_key (JStr s) = Some (KStr s)"
| "to_key v = None"

text \<open>
  Errors: the \<^verbatim>\<open>new Error('Not Found')\<close> of \<^verbatim>\<open>get\<close>, the TypeError of a property
  read on \<^verbatim>\<open>undefined\<close>, the DataError the engine throws for an invalid key range, and
  any other error of the engine (the target of an error or blocked event, or the exception
  of \<^verbatim>\<open>db.transaction\<close>), known by its name.
\<close>

datatype error =
    NotFound
  | TypeError
  | DataError
  | EngineError string

type_synonym store = "(key \<times> jsval) list"

text \<open>
  What one call of the library meets: the records of the object store, the exception
  \<^verbatim>\<open>db.transaction\<close> throws (if any), for each request of the call in the order
  the engine answers them the error event it ends in (\<open>None\<close> for a success event),
  whether the process-wide hook \<^verbatim>\<open>Indexed.onerror\<close> is set, and JavaScript's
  conversion of a string to a number (\<open>None\<close> for NaN), which is left open.
\<close>

record env =
  store :: store
  tx_throws :: "error option"
  fault :: "nat \<Rightarrow> error option"
  hook :: bool
  str_number :: "string \<Rightarrow> int option"

text \<open>\<^verbatim>\<open>store.get(key)\<close>: the record \<^verbatim>\<open>{key, value}\<close>, or \<^verbatim>\<open>undefined\<close>.\<close>

definition store_get :: "store \<Rightarrow> key \<Rightarrow> (key \<times> jsval) option" where
  "store_get recs k = find (\<lambda>r. fst r = k) recs"

text \<open>\<^verbatim>\<open>store.put({key, value})\<close>: insert or replace, keeping the key order.\<close>

fun store_put :: "key \<Rightarrow> jsval \<Rightarrow> store \<Rightarrow> store" where
  "store_put k v [] = [(k, v)]"
| "store_put k v ((k', v') # recs) =
     (if k = k' then (k, v) # recs
      else if key_less k k' then (k, v) # (k', v') # recs
      else (k', v') # store_put k v recs)"

text \<open>\<^verbatim>\<open>store.delete(key)\<close>.\<close>

definition store_delete :: "key \<Rightarrow> store \<Rightarrow> store" where
  "store_delete k recs = filter (\<lambda>r. fst r \<noteq> k) recs"

text \<open>The invariant of an object store: its records are in strictly ascending key order.\<close>

definition key_ordered :: "store \<Rightarrow> bool" where
  "key_ordered recs = sorted_wrt key_less (map fst recs)"

text \<open>
  The key range object of the engine: each bound with its open flag. The constructors
  throw DataError when a bound is not a valid key, when the lower bound is greater than
  the upper one, and when the bounds are equal and one of them is open.
\<close>

record keyrange =
  lower :: "(key \<times> bool) option"
  upper :: "(key \<times> bool) option"

fun IDBKeyRange :: "range \<Rightarrow> error + keyrange" where
  "IDBKeyRange (Bound l u lo uo) =
     (case (to_key l, to_key u) of
        (Some a, Some b) \<Rightarrow>
          (if key_less b a \<or> (a = b \<and> (lo \<or> uo)) then Inl DataError
           else Inr \<lparr>lower = Some (a, lo), upper = Some (b, uo)\<rparr>)
      | _ \<Rightarrow> Inl DataError)"
| "IDBKeyRange (UpperBound u uo) =
     (case to_key u of
        Some b \<Rightarrow> Inr \<lparr>lower = None, upper = Some (b, uo)\<rparr>
      | None \<Rightarrow> Inl DataError)"
| "IDBKeyRange (LowerBound l lo) =
     (case to_key l of
        Some a \<Rightarrow> Inr \<lparr>lower = Some (a, lo), upper = None\<rparr>
      | None \<Rightarrow> Inl DataError)"

definition in_range :: "keyrange \<Rightarrow> key \<Rightarrow> bool" where
  "in_range r k =
     ((case lower r of
         None \<Rightarrow> True
       | Some (a, open) \<Rightarrow> key_less a k \<or> (\<not> open \<and> a = k))
      \<and> (case upper r of
         None \<Rightarrow> True
       | Some (b, open) \<Rightarrow> key_less k b \<or> (\<not> open \<and> k = b)))"

text \<open>
  \<^verbatim>\<open>store.openCursor(range, direction)\<close>: the records the cursor visits, in the order
  it visits them. No range (\<^verbatim>\<open>undefined\<close>) is the whole store; the direction
  \<^verbatim>\<open>'prevunique'\<close> is descending key order.
\<close>

definition matching :: "store \<Rightarrow> keyrange option \<Rightarrow> bool \<Rightarrow> store" where
  "matching recs r prev =
     (let ms = (case r of None \<Rightarrow> recs | Some kr \<Rightarrow> filter (\<lambda>rec. in_range kr (fst rec)) recs)
      in if prev then rev ms else ms)"

section \<open>The handle: \<^verbatim>\<open>getStore\<close> and the point operations\<close>

text \<open>
  \<^verbatim>\<open>getStore\<close>, lines 8 to 15: \<open>Inr ()\<close> is the object \<^verbatim>\<open>{ tx, store }\<close>, \<open>Inl e\<close>
  is the value returned from the \<^verbatim>\<open>catch\<close>, a promise rejected with \<^verbatim>\<open>{ err: e }\<close>.
\<close>

definition getStore :: "env \<Rightarrow> error + unit" where
  "getStore w = (case tx_throws w of Some e \<Rightarrow> Inl e | None \<Rightarrow> Inr ())"

text \<open>
  What a promise of the library ends as. \<open>Data v\<close> is \<^verbatim>\<open>{ data: v }\<close>, \<open>Err e\<close> is
  \<^verbatim>\<open>{ err: e }\<close>, \<open>Empty\<close> is \<^verbatim>\<open>{}\<close>. A promise whose executor throws is rejected
  with the exception; one that nothing settles stays pending.
\<close>

datatype 'a result = Data 'a | Err error | Empty

datatype 'a promise = Resolved 'a | Rejected error | Pending

text \<open>\<^verbatim>\<open>if (Indexed.onerror) Indexed.onerror(e)\<close>: the calls of the hook it makes.\<close>

definition notify :: "env \<Rightarrow> error \<Rightarrow> error list" where
  "notify w e = (if hook w then [e] else [])"

text \<open>
  Every point operation returns the calls of \<^verbatim>\<open>Indexed.onerror\<close> it made and what its
  promise ends as; \<^verbatim>\<open>put\<close> and \<^verbatim>\<open>del\<close> also return the store they leave. Each one
  destructures the value of \<^verbatim>\<open>getStore\<close> at once: of the rejected promise it reads
  \<^verbatim>\<open>store\<close> as \<^verbatim>\<open>undefined\<close>, and the method call on it throws a TypeError inside
  the executor.
\<close>

definition count :: "env \<Rightarrow> error list \<times> jsval result promise" where
  "count w =
     (case getStore w of
        Inl e \<Rightarrow> ([], Rejected TypeError)
      | Inr u \<Rightarrow>
          (case fault w 0 of
             Some e \<Rightarrow> ([], Resolved (Err e))
           | None \<Rightarrow> ([], Resolved (Data (js_or (JNum (int (length (store w)))) (JNum 0))))))"

definition has :: "env \<Rightarrow> key \<Rightarrow> error list \<times> jsval result promise" where
  "has w k =
     (case getStore w of
        Inl e \<Rightarrow> ([], Rejected TypeError)
      | Inr u \<Rightarrow>
          (case fault w 0 of
             Some e \<Rightarrow> (notify w e, Resolved (Err e))
           | None \<Rightarrow> ([], Resolved (Data (JBool (store_get (store w) k \<noteq> None))))))"

definition get :: "env \<Rightarrow> key \<Rightarrow> error list \<times> jsval result promise" where
  "get w k =
     (case getStore w of
        Inl e \<Rightarrow> ([], Rejected TypeError)
      | Inr u \<Rightarrow>
          (case fault w 0 of
             Some e \<Rightarrow> (notify w e, Resolved (Err e))
           | None \<Rightarrow>
               (case store_get (store w) k of
                  None \<Rightarrow> ([], Resolved (Err NotFound))
                | Some (k', v) \<Rightarrow> ([], Resolved (Data v)))))"

definition put :: "env \<Rightarrow> key \<Rightarrow> jsval \<Rightarrow> error list \<times> jsval result promise \<times> store" where
  "put w k v =
     (case getStore w of
        Inl e \<Rightarrow> ([], Rejected TypeError, store w)
      | Inr u \<Rightarrow>
          (case fault w 0 of
             Some e \<Rightarrow> (notify w e, Resolved (Err e), store w)
           | None \<Rightarrow> ([], Resolved Empty, store_put k v (store w))))"

definition del :: "env \<Rightarrow> key \<Rightarrow> error list \<times> jsval result promise \<times> store" where
  "del w k =
     (case getStore w of
        Inl e \<Rightarrow> ([], Rejected TypeError, store w)
      | Inr u \<Rightarrow>
          (case fault w 0 of
             Some e \<Rightarrow> (notify w e, Resolved (Err e), store w)
           | None \<Rightarrow> ([], Resolved Empty, store_delete k (store w))))"

text \<open>
  \<^verbatim>\<open>Indexed.drop\<close>, lines 69 to 76: one request to delete the database; its error and
  blocked events both resolve \<^verbatim>\<open>{ err }\<close>. It opens no transaction.
\<close>

definition drop_db :: "env \<Rightarrow> error list \<times> jsval result promise" where
  "drop_db w =
     (case fault w 0 of
        Some e \<Rightarrow> ([], Resolved (Err e))
      | None \<Rightarrow> ([], Resolved (Data (JBool True))))"

section \<open>The batch executor\<close>

text \<open>An element of the list given to \<^verbatim>\<open>batch\<close>: \<^verbatim>\<open>{ type, key, value }\<close>.\<close>

record op =
  op_type :: jsval
  op_key :: key
  op_value :: jsval

text \<open>A request queued on the store of the transaction.\<close>

datatype request = Put key jsval | Delete key

text \<open>
  \<^verbatim>\<open>eachOp\<close>, lines 212 to 220: the requests one element queues. The two tests are
  strict equalities with the strings \<^verbatim>\<open>'put'\<close> and \<^verbatim>\<open>'del'\<close>.
\<close>

definition eachOp :: "op \<Rightarrow> request list" where
  "eachOp p =
     (if op_type p = JStr ''put'' then [Put (op_key p) (op_value p)] else [])
     @ (if op_type p = JStr ''del'' then [Delete (op_key p)] else [])"

text \<open>\<^verbatim>\<open>ops.forEach(eachOp)\<close>: the requests queued, in the order they are queued.\<close>

definition queued :: "op list \<Rightarrow> request list" where
  "queued ops = concat (map eachOp ops)"

fun apply_request :: "store \<Rightarrow> request \<Rightarrow> store" where
  "apply_request recs (Put k v) = store_put k v recs"
| "apply_request recs (Delete k) = store_delete k recs"

text \<open>
  \<^verbatim>\<open>batch\<close>, lines 203 to 224. Every error event of a request of the transaction
  bubbles to \<^verbatim>\<open>tx.onerror\<close>, and a transaction with such an event aborts and leaves
  the store as it was; otherwise it commits and \<^verbatim>\<open>tx.oncomplete\<close> resolves
  \<^verbatim>\<open>{}\<close>. The promise keeps the first value it is resolved with.
\<close>

definition batch :: "env \<Rightarrow> op list \<Rightarrow> error list \<times> jsval result promise \<times> store" where
  "batch w ops =
     (case getStore w of
        Inl e \<Rightarrow> ([], Rejected TypeError, store w)
      | Inr u \<Rightarrow>
          (let reqs = queued ops
           in case List.map_filter (fault w) [0 ..< length reqs] of
                [] \<Rightarrow> ([], Resolved Empty, foldl apply_request (store w) reqs)
              | e # es \<Rightarrow> (concat (map (notify w) (e # es)), Resolved (Err e), store w)))"

section \<open>The cursor streaming pipeline\<close>

text \<open>
  The three callbacks of the \<^verbatim>\<open>events\<close> object: whether the caller has attached
  each one. The caller attaches them after \<^verbatim>\<open>read\<close> resolves and before the engine
  answers the first request.
\<close>

record handlers =
  ondata :: bool
  onerror :: bool
  onend :: bool

definition all_handlers :: handlers where
  "all_handlers = \<lparr>ondata = True, onerror = True, onend = True\<rparr>"

text \<open>
  What the pipeline does, in order: the calls of the three callbacks, the calls of the
  hook \<^verbatim>\<open>Indexed.onerror\<close>, and its two requests to the engine inside the loop, the
  lookup \<^verbatim>\<open>store.get(key)\<close> and \<^verbatim>\<open>cursor.continue()\<close>.
\<close>

datatype event =
    OnData key jsval
  | OnError error
  | OnEnd
  | IndexedOnError error
  | StoreGet key
  | Continue

text \<open>ToNumber, for the subtraction \<^verbatim>\<open>opts.limit - 1\<close>; \<open>None\<close> is NaN.\<close>

fun to_number :: "env \<Rightarrow> jsval \<Rightarrow> int option" where
  "to_number w JUndefined = None"
| "to_number w JNull = Some 0"
| "to_number w (JBool b) = Some (if b then 1 else 0)"
| "to_number w (JNum n) = Some n"
| "to_number w JNaN = None"
| "to_number w (JStr s) = str_number w s"
| "to_number w (JObj r) = None"

text \<open>
  \<^verbatim>\<open>opts.limit && (count++ === (opts.limit - 1))\<close>: the test, on the value of
  \<open>count\<close> before the increment, and the value of \<open>count\<close> after it. The
  increment is not reached when the limit is falsy.
\<close>

definition limit_reached :: "env \<Rightarrow> jsval \<Rightarrow> nat \<Rightarrow> bool" where
  "limit_reached w lim c =
     (truthy lim \<and> (case to_number w lim of None \<Rightarrow> False | Some n \<Rightarrow> int c = n - 1))"

definition count_after :: "jsval \<Rightarrow> nat \<Rightarrow> nat" where
  "count_after lim c = (if truthy lim then Suc c else c)"

text \<open>Both error handlers of \<^verbatim>\<open>read\<close>: the hook first, then \<^verbatim>\<open>events.onerror\<close>.\<close>

definition onError :: "env \<Rightarrow> handlers \<Rightarrow> error \<Rightarrow> event list" where
  "onError w h e =
     (if hook w then [IndexedOnError e] else []) @ (if onerror h then [OnError e] else [])"

text \<open>
  \<^verbatim>\<open>onSuccess\<close>, lines 263 to 286, with the events that call it again. The
  arguments are the limit, the number \<open>n\<close> of the next answer of the engine, the
  counter \<open>count\<close> and the keys the cursor has still to visit. An empty list is the
  \<^verbatim>\<open>null\<close> cursor. A lookup whose result is \<^verbatim>\<open>undefined\<close> makes the handler throw
  on \<^verbatim>\<open>this.result.key\<close>, and nothing follows.
\<close>

fun onSuccess :: "env \<Rightarrow> handlers \<Rightarrow> jsval \<Rightarrow> nat \<Rightarrow> nat \<Rightarrow> key list \<Rightarrow> event list" where
  "onSuccess w h lim n c [] =
     (case fault w n of
        Some e \<Rightarrow> onError w h e
      | None \<Rightarrow> (if onend h then [OnEnd] else []))"
| "onSuccess w h lim n c (k # ks) =
     (case fault w n of
        Some e \<Rightarrow> onError w h e
      | None \<Rightarrow>
          StoreGet k #
          (case fault w (Suc n) of
             Some e \<Rightarrow> onError w h e
           | None \<Rightarrow>
               (case store_get (store w) k of
                  None \<Rightarrow> []
                | Some (k', v) \<Rightarrow>
                    (if ondata h then [OnData k' v] else [])
                    @ (if limit_reached w lim c then (if onend h then [OnEnd] else [])
                       else Continue # onSuccess w h lim (Suc (Suc n)) (count_after lim c) ks))))"

text \<open>
  \<^verbatim>\<open>read\<close>, lines 250 to 291. An exception before \<^verbatim>\<open>resolve({ events })\<close> rejects
  the promise; otherwise the promise resolves at once and the events follow.
\<close>

datatype stream = Rejects error | Streams "event list"

definition key_range :: "options \<Rightarrow> error + keyrange option" where
  "key_range opts =
     (case getRange opts of
        None \<Rightarrow> Inr None
      | Some r \<Rightarrow> (case IDBKeyRange r of Inl e \<Rightarrow> Inl e | Inr kr \<Rightarrow> Inr (Some kr)))"

definition read :: "env \<Rightarrow> handlers \<Rightarrow> options \<Rightarrow> stream" where
  "read w h opts =
     (case getStore w of
        Inl e \<Rightarrow> Rejects TypeError
      | Inr u \<Rightarrow>
          (case key_range opts of
             Inl e \<Rightarrow> Rejects e
           | Inr kr \<Rightarrow>
               Streams (onSuccess w h (limit opts) 0 0
                 (map fst (matching (store w) kr (truthy (reverse opts)))))))"

section \<open>\<^verbatim>\<open>readAll\<close>\<close>

text \<open>\<^verbatim>\<open>Map.prototype.set\<close>: a key already there keeps its place, a new key goes last.\<close>

fun map_set :: "(key \<times> jsval) list \<Rightarrow> key \<Rightarrow> jsval \<Rightarrow> (key \<times> jsval) list" where
  "map_set [] k v = [(k, v)]"
| "map_set ((k', v') # rows) k v =
     (if k' = k then (k, v) # rows else (k', v') # map_set rows k v)"

text \<open>\<^verbatim>\<open>resolve(x)\<close>: settles a pending promise and does nothing to a settled one.\<close>

definition resolve :: "'a promise \<Rightarrow> 'a \<Rightarrow> 'a promise" where
  "resolve p x = (case p of Pending \<Rightarrow> Resolved x | _ \<Rightarrow> p)"

text \<open>
  The state of one \<^verbatim>\<open>readAll\<close>: the map \<open>rows\<close>, its promise, and the calls of
  \<^verbatim>\<open>Indexed.onerror\<close> so far (those of \<^verbatim>\<open>read\<close> and those of the handler of
  \<^verbatim>\<open>readAll\<close>).
\<close>

record collector =
  rows :: "(key \<times> jsval) list"
  settled :: "(key \<times> jsval) list result promise"
  notified :: "error list"

text \<open>The three handlers \<^verbatim>\<open>readAll\<close> attaches, lines 235 to 240.\<close>

fun handle :: "env \<Rightarrow> collector \<Rightarrow> event \<Rightarrow> collector" where
  "handle w s (OnData k v) = s\<lparr>rows := map_set (rows s) k v\<rparr>"
| "handle w s (OnError e) =
     s\<lparr>settled := resolve (settled s) (Err e), notified := notified s @ notify w e\<rparr>"
| "handle w s OnEnd = s\<lparr>settled := resolve (settled s) (Data (rows s))\<rparr>"
| "handle w s (IndexedOnError e) = s\<lparr>notified := notified s @ [e]\<rparr>"
| "handle w s (StoreGet k) = s"
| "handle w s Continue = s"

text \<open>
  \<^verbatim>\<open>readAll\<close>, lines 231 to 243. When \<^verbatim>\<open>read\<close> rejects, the \<^verbatim>\<open>then\<close> callback
  never runs and the promise stays pending.
\<close>

definition readAll :: "env \<Rightarrow> options \<Rightarrow> error list \<times> (key \<times> jsval) list result promise" where
  "readAll w opts =
     (case read w all_handlers opts of
        Rejects e \<Rightarrow> ([], Pending)
      | Streams tr \<Rightarrow>
          (let s = foldl (handle w) \<lparr>rows = [], settled = Pending, notified = []\<rparr> tr
           in (notified s, settled s)))"

section \<open>Vocabulary of the properties\<close>

text \<open>The two events that end a stream.\<close>

fun is_terminal :: "event \<Rightarrow> bool" where
  "is_terminal OnEnd = True"
| "is_terminal (OnError e) = True"
| "is_terminal e = False"

text \<open>
  What the pipeline does at one record when it goes on (\<open>step\<close>) and when the limit
  is reached there (\<open>last_step\<close>).
\<close>

definition step :: "key \<times> jsval \<Rightarrow> event list" where
  "step r = [StoreGet (fst r), OnData (fst r) (snd r), Continue]"

definition last_step :: "key \<times> jsval \<Rightarrow> event list" where
  "last_step r = [StoreGet (fst r), OnData (fst r) (snd r), OnEnd]"

text \<open>
  The elements of a batch list that \<^verbatim>\<open>batch\<close> recognizes, and the request a
  recognized element stands for.
\<close>

definition recognized :: "op \<Rightarrow> bool" where
  "recognized p = (op_type p = JStr ''put'' \<or> op_type p = JStr ''del'')"

definition request_of :: "op \<Rightarrow> request" where
  "request_of p =
     (if op_type p = JStr ''put'' then Put (op_key p) (op_value p) else Delete (op_key p))"

text \<open>The pairs handed to \<^verbatim>\<open>ondata\<close>, in the order they are handed over.\<close>

fun deliveries :: "event list \<Rightarrow> (key \<times> jsval) list" where
  "deliveries [] = []"
| "deliveries (OnData k v # es) = (k, v) # deliveries es"
| "deliveries (e # es) = deliveries es"

text \<open>
  The mapping of \<^verbatim>\<open>readAll\<close> in the words of the specification: its keys are the keys
  delivered, each once, in the order of their first delivery (\<open>first_seen\<close>), and a key
  is mapped to the value delivered last for it (\<open>map_of\<close> of the reversed deliveries).
\<close>

definition first_seen :: "key list \<Rightarrow> key list" where
  "first_seen ks = rev (remdups (rev ks))"

text \<open>The map after \<^verbatim>\<open>rows.set\<close> has been called for each pair of a list in turn.\<close>

definition collected :: "(key \<times> jsval) list \<Rightarrow> (key \<times> jsval) list \<Rightarrow> (key \<times> jsval) list" where
  "collected rs kvs = foldl (\<lambda>r p. map_set r (fst p) (snd p)) rs kvs"

section \<open>Example environments\<close>

text \<open>A handle whose database has no object store: \<^verbatim>\<open>db.transaction\<close> throws.\<close>

definition missing_table :: env where
  "missing_table = \<lparr>store = [], tx_throws = Some (EngineError ''NotFoundError''),
     fault = (\<lambda>n. None), hook = True, str_number = (\<lambda>s. None)\<rparr>"

text \<open>An engine that answers every request with an error event, the hook being set.\<close>

definition failing_request :: env where
  "failing_request = \<lparr>store = [(KStr ''foo'', JNum 100)], tx_throws = None,
     fault = (\<lambda>n. Some (EngineError ''UnknownError'')), hook = True,
     str_number = (\<lambda>s. None)\<rparr>"

text \<open>A healthy engine over a store of the records given.\<close>

definition healthy :: "store \<Rightarrow> env" where
  "healthy recs = \<lparr>store = recs, tx_throws = None, fault = (\<lambda>n. None), hook = False,
     str_number = (\<lambda>s. None)\<rparr>"

text \<open>
  A store with three keys between \<^verbatim>\<open>'KX'\<close> and \<^verbatim>\<open>'KXz'\<close> and one on each side,
  and the options that select the three, with a limit of 2 and of 0.
\<close>

definition kx_store :: store where
  "kx_store = [(KStr ''KW9'', JObj 0), (KStr ''KX0'', JObj 1), (KStr ''KX1'', JObj 2),
     (KStr ''KX2'', JObj 3), (KStr ''L'', JObj 4)]"

definition kx_limit2 :: options where
  "kx_limit2 = no_options\<lparr>gt := JStr ''KX'', lt := JStr ''KXz'', limit := JNum 2\<rparr>"

definition kx_limit0 :: options where
  "kx_limit0 = no_options\<lparr>gt := JStr ''KX'', lt := JStr ''KXz'', limit := JNum 0\<rparr>"

definition kx_bounds :: "keyrange option" where
  "kx_bounds = Some \<lparr>lower = Some (KStr ''KX'', True), upper = Some (KStr ''KXz'', True)\<rparr>"

text \<open>An engine over that store whose fourth answer, the second lookup, is an error.\<close>

definition lookup_fails :: env where
  "lookup_fails = \<lparr>store = kx_store, tx_throws = None,
     fault = (\<lambda>n. if n = 3 then Some (EngineError ''UnknownError'') else None), hook = True,
     str_number = (\<lambda>s. None)\<rparr>"

section \<open>The engine model keeps its invariant\<close>

lemma str_less_irrefl: "\<not> str_less s s"
  by (induction s) simp_all

lemma str_less_trans: "str_less a b \<Longrightarrow> str_less b c \<Longrightarrow> str_less a c"
proof (induction a b arbitrary: c rule: str_less.induct)
  case 1
  then show ?case by simp
next
  case (2 y ys)
  then show ?case by (cases c) simp_all
next
  case (3 x xs)
  then show ?case by simp
next
  case (4 x xs y ys)
  show ?case
  proof (cases c)
    case Nil
    with 4 show ?thesis by simp
  next
    case (Cons z zs)
    from "4.prems" Cons
    consider "(of_char x :: nat) < of_char z" | "x = y" "y = z" "str_less xs ys" "str_less ys zs"
      by fastforce
    then show ?thesis
    proof cases
      case 1
      with Cons show ?thesis by simp
    next
      case 2
      with "4.IH" Cons show ?thesis by simp
    qed
  qed
qed

lemma str_less_total: "a \<noteq> b \<Longrightarrow> str_less a b \<or> str_less b a"
proof (induction a b rule: str_less.induct)
  case (4 x xs y ys)
  have "(of_char x :: nat) = of_char y \<longleftrightarrow> x = y" by simp
  with 4 show ?case by (cases "(of_char x :: nat) < of_char y") (auto simp: not_less le_less)
qed simp_all

lemma key_less_irrefl: "\<not> key_less k k"
  by (cases k) (simp_all add: str_less_irrefl)

lemma key_less_trans: "key_less a b \<Longrightarrow> key_less b c \<Longrightarrow> key_less a c"
proof (cases a; cases b; cases c)
qed (simp_all, erule (1) str_less_trans)

lemma key_less_total: "a \<noteq> b \<Longrightarrow> key_less a b \<or> key_less b a"
proof (cases a; cases b)
qed (simp_all add: str_less_total neq_iff)

lemma key_ordered_distinct: "key_ordered recs \<Longrightarrow> distinct (map fst recs)"
  unfolding key_ordered_def
  by (induction recs) (auto simp: key_less_irrefl)

lemma keys_store_put: "set (map fst (store_put k v recs)) = insert k (set (map fst recs))"
  by (induction k v recs rule: store_put.induct) (simp_all add: insert_commute)

lemma key_ordered_put: "key_ordered recs \<Longrightarrow> key_ordered (store_put k v recs)"
  unfolding key_ordered_def
proof (induction recs)
  case Nil
  then show ?case by simp
next
  case (Cons r recs)
  obtain k' v' where r: "r = (k', v')" by (cases r)
  from Cons.prems r have above: "\<forall>x \<in> set (map fst recs). key_less k' x"
    and tail: "sorted_wrt key_less (map fst recs)"
    by simp_all
  show ?case
  proof (cases "k = k'")
    case True
    with above tail r show ?thesis by simp
  next
    case False
    show ?thesis
    proof (cases "key_less k k'")
      case True
      then have "\<forall>x \<in> set (map fst recs). key_less k x"
        using above key_less_trans by blast
      with True above tail r False show ?thesis by simp
    next
      case after: False
      with False have "key_less k' k" using key_less_total by blast
      then have "\<forall>x \<in> set (map fst (store_put k v recs)). key_less k' x"
        using above unfolding keys_store_put by simp
      moreover have "sorted_wrt key_less (map fst (store_put k v recs))"
        using tail by (rule Cons.IH)
      ultimately show ?thesis
        using r False after by simp
    qed
  qed
qed

lemma key_ordered_delete: "key_ordered recs \<Longrightarrow> key_ordered (store_delete k recs)"
  unfolding key_ordered_def store_delete_def
  by (induction recs) simp_all

lemma store_get_put: "store_get (store_put k v recs) k = Some (k, v)"
  by (induction k v recs rule: store_put.induct) (simp_all add: store_get_def)

lemma store_get_put_other:
  "k' \<noteq> k \<Longrightarrow> store_get (store_put k v recs) k' = store_get recs k'"
  by (induction k v recs rule: store_put.induct) (auto simp add: store_get_def)

lemma store_get_delete: "store_get (store_delete k recs) k = None"
  by (induction recs) (simp_all add: store_get_def store_delete_def)

text \<open>A forward cursor over an ordered store visits its keys in ascending order.\<close>

lemma matching_ordered:
  "key_ordered recs \<Longrightarrow> sorted_wrt key_less (map fst (matching recs r False))"
  unfolding key_ordered_def matching_def
  by (cases r) (simp_all add: sorted_wrt_map sorted_wrt_filter)

section \<open>Properties of the range builder\<close>

lemma truthy_js_or: "truthy (js_or a b) = (truthy a \<or> truthy b)"
  by (simp add: js_or_def)

text \<open>
  Claim C1 says that every options object supplying a lower bound key (gt or gte) and an
  upper bound key (lt or lte) gets a bounded range whose lower flag is true exactly when
  gt was used and whose upper flag is true exactly when lt was used. The guard of
  \<^verbatim>\<open>getRange\<close> tests the truthiness of the supplied values, so the options
  \<^verbatim>\<open>{gt: 0, lt: 5}\<close> supply both keys and still get the upper-only range
  \<^verbatim>\<open>upperBound(5, true)\<close>: the claim fails there.
\<close>

theorem getRange_falsy_lower_counterexample:
  "getRange (no_options\<lparr>gt := JNum 0, lt := JNum 5\<rparr>) = Some (UpperBound (JNum 5) True)"
  by (simp add: getRange_def no_options_def js_or_def is_defined_def)

text \<open>
  Claim C1 as amended: when both \<^verbatim>\<open>o.gte || o.gt\<close> and \<^verbatim>\<open>o.lte || o.lt\<close> are truthy,
  \<^verbatim>\<open>getRange\<close> calls \<^verbatim>\<open>IDBKeyRange.bound\<close> with \<^verbatim>\<open>o.gte || o.gt\<close> as lower and
  \<^verbatim>\<open>o.lte || o.lt\<close> as upper bound. The call returns the bounded range over the two
  when both are valid keys and either the lower one is smaller, or they are equal and
  neither gt nor lt is supplied; otherwise it throws a DataError. When gt and lt are both
  supplied or both absent, the lower flag is true exactly when gt is supplied and the
  upper flag exactly when lt is supplied. Nothing is said of the flags when exactly one
  of gt and lt is supplied.
\<close>

theorem getRange_bounded:
  assumes "truthy (js_or (gte o') (gt o'))" and "truthy (js_or (lte o') (lt o'))"
  shows "\<exists>lo uo. getRange o' = Some (Bound (js_or (gte o') (gt o')) (js_or (lte o') (lt o')) lo uo)
           \<and> (is_defined (gt o') = is_defined (lt o')
                \<longrightarrow> lo = is_defined (gt o') \<and> uo = is_defined (lt o'))
           \<and> key_range o'
               = (case (to_key (js_or (gte o') (gt o')), to_key (js_or (lte o') (lt o'))) of
                    (Some a, Some b) \<Rightarrow>
                      (if key_less b a \<or> (a = b \<and> (is_defined (gt o') \<or> is_defined (lt o')))
                       then Inl DataError
                       else Inr (Some \<lparr>lower = Some (a, lo), upper = Some (b, uo)\<rparr>))
                  | _ \<Rightarrow> Inl DataError)"
  using assms
  by (auto simp add: getRange_def key_range_def Let_def split: option.splits)

theorem getRange_bounded_witness:
  "key_range (no_options\<lparr>gt := JStr ''KX1'', lt := JStr ''KX2''\<rparr>)
     = Inr (Some \<lparr>lower = Some (KStr ''KX1'', True), upper = Some (KStr ''KX2'', True)\<rparr>)
   \<and> key_range (no_options\<lparr>gte := JStr ''KX1'', lte := JStr ''KX2''\<rparr>)
     = Inr (Some \<lparr>lower = Some (KStr ''KX1'', False), upper = Some (KStr ''KX2'', False)\<rparr>)
   \<and> key_range (no_options\<lparr>gte := JStr ''z'', lte := JStr ''a''\<rparr>) = Inl DataError
   \<and> key_range (no_options\<lparr>gt := JStr ''a'', lt := JStr ''a''\<rparr>) = Inl DataError
   \<and> key_range (no_options\<lparr>gt := JBool True, lt := JBool True\<rparr>) = Inl DataError"
  using getRange_bounded [of "no_options\<lparr>gt := JStr ''KX1'', lt := JStr ''KX2''\<rparr>"]
    getRange_bounded [of "no_options\<lparr>gte := JStr ''KX1'', lte := JStr ''KX2''\<rparr>"]
    getRange_bounded [of "no_options\<lparr>gte := JStr ''z'', lte := JStr ''a''\<rparr>"]
    getRange_bounded [of "no_options\<lparr>gt := JStr ''a'', lt := JStr ''a''\<rparr>"]
    getRange_bounded [of "no_options\<lparr>gt := JBool True, lt := JBool True\<rparr>"]
  by (auto simp add: no_options_def js_or_def is_defined_def)

text \<open>An invalid range rejects the promise of \<^verbatim>\<open>read\<close> before any event.\<close>

lemma read_invalid_range:
  "read (healthy recs) h (no_options\<lparr>gte := JStr ''z'', lte := JStr ''a''\<rparr>) = Rejects DataError"
  by (simp add: read_def getStore_def healthy_def key_range_def getRange_def no_options_def
      js_or_def is_defined_def)

text \<open>
  The two-sided call passes \<open>exLower\<close> and \<open>exUpper\<close> in the positions
  \<^verbatim>\<open>lowerOpen\<close> and \<^verbatim>\<open>upperOpen\<close>, although \<open>exLower\<close> is computed from lt and
  \<open>exUpper\<close> from gt; the one-sided calls pass the flag of their own side. With
  \<^verbatim>\<open>{gt: 'a', lte: 'z'}\<close> the lower bound is therefore closed and the upper bound open.
\<close>

lemma getRange_mixed_pair:
  "getRange (no_options\<lparr>gt := JStr ''a'', lte := JStr ''z''\<rparr>)
     = Some (Bound (JStr ''a'') (JStr ''z'') False True)"
  by (simp add: getRange_def no_options_def js_or_def is_defined_def)

lemma getRange_one_sided:
  "getRange (no_options\<lparr>gt := JStr ''a''\<rparr>) = Some (LowerBound (JStr ''a'') True)"
  "getRange (no_options\<lparr>gte := JStr ''a''\<rparr>) = Some (LowerBound (JStr ''a'') False)"
  "getRange (no_options\<lparr>lt := JStr ''z''\<rparr>) = Some (UpperBound (JStr ''z'') True)"
  "getRange (no_options\<lparr>lte := JStr ''z''\<rparr>) = Some (UpperBound (JStr ''z'') False)"
  by (simp_all add: getRange_def no_options_def js_or_def is_defined_def)

text \<open>Which sides are bounded is decided by the truthiness of the two disjunctions.\<close>

lemma getRange_None_iff:
  "getRange o' = None
     \<longleftrightarrow> \<not> truthy (js_or (lte o') (lt o')) \<and> \<not> truthy (js_or (gte o') (gt o'))"
  by (simp add: getRange_def Let_def)

text \<open>
  Claim C9: when every bound key that is supplied is falsy, \<^verbatim>\<open>getRange\<close> returns
  \<^verbatim>\<open>undefined\<close>, \<^verbatim>\<open>read\<close> does what it does for the same options with no bound
  key at all, and it opens its cursor over the whole store (in the direction asked for).
\<close>

theorem getRange_all_falsy:
  assumes "\<not> truthy (lt o')" and "\<not> truthy (lte o')"
    and "\<not> truthy (gt o')" and "\<not> truthy (gte o')"
  shows "getRange o' = None
    \<and> read w h o'
        = read w h (o'\<lparr>lt := JUndefined, lte := JUndefined, gt := JUndefined, gte := JUndefined\<rparr>)
    \<and> (tx_throws w = None \<longrightarrow>
         read w h o' = Streams (onSuccess w h (limit o') 0 0
           (map fst (if truthy (reverse o') then rev (store w) else store w))))"
proof -
  let ?bare = "o'\<lparr>lt := JUndefined, lte := JUndefined, gt := JUndefined, gte := JUndefined\<rparr>"
  have none: "getRange o' = None"
    using assms by (simp add: getRange_def js_or_def)
  then have whole: "key_range o' = Inr None"
    by (simp add: key_range_def)
  have "getRange ?bare = None"
    by (simp add: getRange_def js_or_def)
  then have bare: "key_range ?bare = Inr None"
    by (simp add: key_range_def)
  have "read w h o' = read w h ?bare"
    unfolding read_def whole bare by (cases "getStore w") simp_all
  moreover have "tx_throws w = None \<longrightarrow>
         read w h o' = Streams (onSuccess w h (limit o') 0 0
           (map fst (if truthy (reverse o') then rev (store w) else store w)))"
    unfolding read_def whole by (simp add: getStore_def matching_def)
  ultimately show ?thesis using none by simp
qed

theorem getRange_all_falsy_witness:
  "getRange (no_options\<lparr>gt := JNum 0, lte := JStr [], lt := JNull\<rparr>) = None
   \<and> read (healthy [(KNum 0, JStr ''zero''), (KNum 7, JStr ''seven'')]) all_handlers
        (no_options\<lparr>gt := JNum 0, lte := JStr [], lt := JNull\<rparr>)
     = Streams [StoreGet (KNum 0), OnData (KNum 0) (JStr ''zero''), Continue,
                StoreGet (KNum 7), OnData (KNum 7) (JStr ''seven''), Continue, OnEnd]"
  using getRange_all_falsy [of "no_options\<lparr>gt := JNum 0, lte := JStr [], lt := JNull\<rparr>"
      "healthy [(KNum 0, JStr ''zero''), (KNum 7, JStr ''seven'')]" all_handlers]
  by (auto simp add: no_options_def all_handlers_def healthy_def store_get_def
      limit_reached_def count_after_def)

section \<open>Properties of the point operations\<close>

lemma store_get_None: "store_get recs k = None \<longleftrightarrow> k \<notin> fst ` set recs"
  by (induction recs) (auto simp: store_get_def)

lemma store_get_Some:
  "distinct (map fst recs) \<Longrightarrow> (k, v) \<in> set recs \<Longrightarrow> store_get recs k = Some (k, v)"
  by (induction recs) (auto simp: store_get_def rev_image_eqI)

text \<open>
  Claim C5: when the transaction opens and the request succeeds, \<^verbatim>\<open>get(k)\<close> resolves
  \<^verbatim>\<open>{ err: NotFound }\<close> on a store with no record for \<open>k\<close> and \<^verbatim>\<open>{ data: v }\<close> on a
  store whose record for \<open>k\<close> holds \<open>v\<close>, and \<^verbatim>\<open>has(k)\<close> resolves
  \<^verbatim>\<open>{ data: false }\<close> and \<^verbatim>\<open>{ data: true }\<close>; neither promise is rejected and the
  hook is not called.
\<close>

theorem get_has_presence:
  assumes "tx_throws w = None" and "fault w 0 = None" and "distinct (map fst (store w))"
  shows "(k \<notin> fst ` set (store w) \<longrightarrow>
            get w k = ([], Resolved (Err NotFound))
            \<and> has w k = ([], Resolved (Data (JBool False))))
       \<and> (\<forall>v. (k, v) \<in> set (store w) \<longrightarrow>
            get w k = ([], Resolved (Data v))
            \<and> has w k = ([], Resolved (Data (JBool True))))"
  using assms
  by (auto simp: get_def has_def getStore_def store_get_None [symmetric] store_get_Some)

theorem get_has_presence_witness:
  "get (healthy [(KStr ''foo'', JNum 100)]) (KStr ''quxx'') = ([], Resolved (Err NotFound))
   \<and> has (healthy [(KStr ''foo'', JNum 100)]) (KStr ''quxx'')
       = ([], Resolved (Data (JBool False)))
   \<and> get (healthy [(KStr ''foo'', JNum 100)]) (KStr ''foo'') = ([], Resolved (Data (JNum 100)))
   \<and> has (healthy [(KStr ''foo'', JNum 100)]) (KStr ''foo'')
       = ([], Resolved (Data (JBool True)))"
  using get_has_presence [of "healthy [(KStr ''foo'', JNum 100)]" "KStr ''quxx''"]
    get_has_presence [of "healthy [(KStr ''foo'', JNum 100)]" "KStr ''foo''"]
  by (simp add: healthy_def)

text \<open>A record whose value is \<^verbatim>\<open>undefined\<close> is present all the same.\<close>

lemma has_undefined_value:
  "has (healthy [(KStr ''foo'', JUndefined)]) (KStr ''foo'') = ([], Resolved (Data (JBool True)))"
  "get (healthy [(KStr ''foo'', JUndefined)]) (KStr ''foo'') = ([], Resolved (Data JUndefined))"
  by (simp_all add: has_def get_def getStore_def healthy_def store_get_def)

text \<open>
  Claim C3 says that no point operation ever rejects, a failure to create the transaction
  included. On a handle whose \<^verbatim>\<open>db.transaction\<close> throws, \<^verbatim>\<open>getStore\<close> returns a
  rejected promise, the operation reads \<^verbatim>\<open>store\<close> of it as \<^verbatim>\<open>undefined\<close>, and its
  own promise is rejected with the TypeError of the call on \<^verbatim>\<open>undefined\<close>.
\<close>

theorem point_ops_reject_on_missing_table:
  "count missing_table = ([], Rejected TypeError)
   \<and> has missing_table (KStr ''foo'') = ([], Rejected TypeError)
   \<and> get missing_table (KStr ''foo'') = ([], Rejected TypeError)
   \<and> put missing_table (KStr ''foo'') (JNum 100) = ([], Rejected TypeError, [])
   \<and> del missing_table (KStr ''foo'') = ([], Rejected TypeError, [])"
  by (simp add: missing_table_def count_def has_def get_def put_def del_def getStore_def)

text \<open>
  The same for every handle: the five promises are rejected when the transaction cannot
  be created, and resolved when it can, whatever the request ends in.
\<close>

lemma point_ops_reject:
  assumes "tx_throws w = Some e"
  shows "snd (count w) = Rejected TypeError" and "snd (has w k) = Rejected TypeError"
    and "snd (get w k) = Rejected TypeError" and "fst (snd (put w k v)) = Rejected TypeError"
    and "fst (snd (del w k)) = Rejected TypeError"
  using assms by (simp_all add: count_def has_def get_def put_def del_def getStore_def)

lemma point_ops_resolve:
  assumes "tx_throws w = None"
  shows "\<exists>r. snd (count w) = Resolved r" and "\<exists>r. snd (has w k) = Resolved r"
    and "\<exists>r. snd (get w k) = Resolved r" and "\<exists>r. fst (snd (put w k v)) = Resolved r"
    and "\<exists>r. fst (snd (del w k)) = Resolved r"
  using assms
  by (simp_all add: count_def has_def get_def put_def del_def getStore_def
      split: option.splits prod.splits)

text \<open>
  Claim C4 says that the hook \<^verbatim>\<open>Indexed.onerror\<close>, when set, is called for every
  error of every operation, those of \<^verbatim>\<open>count\<close> and \<^verbatim>\<open>drop\<close> included. With the
  hook set and the request ending in an error event, \<^verbatim>\<open>count\<close> and \<^verbatim>\<open>drop\<close>
  resolve \<^verbatim>\<open>{ err }\<close> and do not call the hook; \<^verbatim>\<open>has\<close> calls it once.
\<close>

theorem count_drop_skip_hook:
  "count failing_request = ([], Resolved (Err (EngineError ''UnknownError'')))
   \<and> drop_db failing_request = ([], Resolved (Err (EngineError ''UnknownError'')))
   \<and> has failing_request (KStr ''foo'')
       = ([EngineError ''UnknownError''], Resolved (Err (EngineError ''UnknownError'')))"
  by (simp add: failing_request_def count_def drop_db_def has_def getStore_def notify_def)

lemma hook_calls:
  assumes "tx_throws w = None" and "fault w 0 = Some e" and "hook w"
  shows "fst (count w) = []" and "fst (drop_db w) = []"
    and "fst (has w k) = [e]" and "fst (get w k) = [e]"
    and "fst (put w k v) = [e]" and "fst (del w k) = [e]"
  using assms
  by (simp_all add: count_def drop_db_def has_def get_def put_def del_def getStore_def
      notify_def)

section \<open>Properties of the batch executor\<close>

lemma queued_append: "queued (xs @ ys) = queued xs @ queued ys"
  by (simp add: queued_def)

lemma eachOp_unrecognized:
  "op_type p \<noteq> JStr ''put'' \<Longrightarrow> op_type p \<noteq> JStr ''del'' \<Longrightarrow> eachOp p = []"
  by (simp add: eachOp_def)

lemma queued_skip:
  assumes "op_type p \<noteq> JStr ''put''" and "op_type p \<noteq> JStr ''del''"
  shows "queued (xs @ p # ys) = queued (xs @ ys)"
  using assms by (simp add: queued_def eachOp_unrecognized)

lemma eachOp_put: "op_type p = JStr ''put'' \<Longrightarrow> eachOp p = [Put (op_key p) (op_value p)]"
  by (simp add: eachOp_def)

lemma eachOp_del: "op_type p = JStr ''del'' \<Longrightarrow> eachOp p = [Delete (op_key p)]"
  by (simp add: eachOp_def)

lemma eachOp_request_of: "eachOp p = (if recognized p then [request_of p] else [])"
  by (simp add: eachOp_def recognized_def request_of_def)

lemma queued_filter: "queued ops = map request_of (filter recognized ops)"
  by (induction ops) (simp_all add: queued_def eachOp_request_of)

lemma queued_recognized_only: "queued (filter recognized ops) = queued ops"
  by (induction ops) (simp_all add: queued_def eachOp_request_of)

lemma batch_queued:
  assumes "queued xs = queued ys"
  shows "batch w xs = batch w ys"
  unfolding batch_def assms by (rule refl)

lemma batch_healthy:
  assumes "tx_throws w = None" and "\<forall>n. fault w n = None"
  shows "batch w ops = ([], Resolved Empty, foldl apply_request (store w) (queued ops))"
proof -
  have "List.map_filter (fault w) [0 ..< n] = []" for n
    using assms(2) by (simp add: List.map_filter_def)
  then show ?thesis
    using assms(1) by (simp add: batch_def getStore_def Let_def)
qed

text \<open>
  Claim C7: the requests \<^verbatim>\<open>batch\<close> queues are the requests of the recognized elements
  of the list, in list order: a \<^verbatim>\<open>'put'\<close> element queues its put and a \<^verbatim>\<open>'del'\<close>
  element its delete between the requests of the elements before and after it, and an
  element of any other type queues nothing. The hook calls, the promise and the store
  that \<^verbatim>\<open>batch\<close> leaves are those of the list without the unrecognized elements, so
  such an element is neither applied nor reported; on a healthy engine the promise
  resolves \<^verbatim>\<open>{}\<close> and the store is the old one with the recognized requests applied in
  list order.
\<close>

theorem batch_skips_unrecognized:
  "queued ops = map request_of (filter recognized ops)
   \<and> batch w ops = batch w (filter recognized ops)
   \<and> (op_type p = JStr ''put'' \<longrightarrow>
        queued (xs @ p # ys) = queued xs @ Put (op_key p) (op_value p) # queued ys)
   \<and> (op_type p = JStr ''del'' \<longrightarrow>
        queued (xs @ p # ys) = queued xs @ Delete (op_key p) # queued ys)
   \<and> (op_type p \<noteq> JStr ''put'' \<and> op_type p \<noteq> JStr ''del'' \<longrightarrow>
        queued (xs @ p # ys) = queued xs @ queued ys
        \<and> batch w (xs @ p # ys) = batch w (xs @ ys))
   \<and> (tx_throws w = None \<and> (\<forall>n. fault w n = None) \<longrightarrow>
        batch w ops
          = ([], Resolved Empty,
             foldl apply_request (store w) (map request_of (filter recognized ops))))"
proof (intro conjI impI)
  show "queued ops = map request_of (filter recognized ops)"
    by (rule queued_filter)
  show "batch w ops = batch w (filter recognized ops)"
    by (rule batch_queued) (simp add: queued_recognized_only)
  show "queued (xs @ p # ys) = queued xs @ Put (op_key p) (op_value p) # queued ys"
    if "op_type p = JStr ''put''"
    using that by (simp add: queued_def eachOp_put)
  show "queued (xs @ p # ys) = queued xs @ Delete (op_key p) # queued ys"
    if "op_type p = JStr ''del''"
    using that by (simp add: queued_def eachOp_del)
  show "queued (xs @ p # ys) = queued xs @ queued ys"
    if "op_type p \<noteq> JStr ''put'' \<and> op_type p \<noteq> JStr ''del''"
    using that by (simp add: queued_def eachOp_unrecognized)
  show "batch w (xs @ p # ys) = batch w (xs @ ys)"
    if "op_type p \<noteq> JStr ''put'' \<and> op_type p \<noteq> JStr ''del''"
    using that by (intro batch_queued) (simp add: queued_skip)
  show "batch w ops
          = ([], Resolved Empty,
             foldl apply_request (store w) (map request_of (filter recognized ops)))"
    if "tx_throws w = None \<and> (\<forall>n. fault w n = None)"
    using that batch_healthy [of w ops] by (simp add: queued_filter)
qed

theorem batch_skips_unrecognized_witness:
  "queued [\<lparr>op_type = JStr ''put'', op_key = KStr ''a'', op_value = JNum 1\<rparr>,
           \<lparr>op_type = JStr ''patch'', op_key = KStr ''c'', op_value = JNum 9\<rparr>,
           \<lparr>op_type = JStr ''del'', op_key = KStr ''b'', op_value = JUndefined\<rparr>,
           \<lparr>op_type = JStr ''put'', op_key = KStr ''d'', op_value = JNum 4\<rparr>]
     = [Put (KStr ''a'') (JNum 1), Delete (KStr ''b''), Put (KStr ''d'') (JNum 4)]
   \<and> batch (healthy [(KStr ''b'', JNum 0), (KStr ''c'', JNum 3)])
        [\<lparr>op_type = JStr ''put'', op_key = KStr ''a'', op_value = JNum 1\<rparr>,
         \<lparr>op_type = JStr ''patch'', op_key = KStr ''c'', op_value = JNum 9\<rparr>,
         \<lparr>op_type = JStr ''del'', op_key = KStr ''b'', op_value = JUndefined\<rparr>,
         \<lparr>op_type = JStr ''put'', op_key = KStr ''d'', op_value = JNum 4\<rparr>]
     = ([], Resolved Empty,
        [(KStr ''a'', JNum 1), (KStr ''c'', JNum 3), (KStr ''d'', JNum 4)])
   \<and> batch (healthy [(KStr ''b'', JNum 0), (KStr ''c'', JNum 3)])
        [\<lparr>op_type = JStr ''put'', op_key = KStr ''a'', op_value = JNum 1\<rparr>,
         \<lparr>op_type = JStr ''patch'', op_key = KStr ''c'', op_value = JNum 9\<rparr>,
         \<lparr>op_type = JStr ''del'', op_key = KStr ''b'', op_value = JUndefined\<rparr>,
         \<lparr>op_type = JStr ''put'', op_key = KStr ''d'', op_value = JNum 4\<rparr>]
     = batch (healthy [(KStr ''b'', JNum 0), (KStr ''c'', JNum 3)])
        [\<lparr>op_type = JStr ''put'', op_key = KStr ''a'', op_value = JNum 1\<rparr>,
         \<lparr>op_type = JStr ''del'', op_key = KStr ''b'', op_value = JUndefined\<rparr>,
         \<lparr>op_type = JStr ''put'', op_key = KStr ''d'', op_value = JNum 4\<rparr>]"
proof -
  let ?put_a = "\<lparr>op_type = JStr ''put'', op_key = KStr ''a'', op_value = JNum 1\<rparr>"
  let ?patch = "\<lparr>op_type = JStr ''patch'', op_key = KStr ''c'', op_value = JNum 9\<rparr>"
  let ?del_b = "\<lparr>op_type = JStr ''del'', op_key = KStr ''b'', op_value = JUndefined\<rparr>"
  let ?put_d = "\<lparr>op_type = JStr ''put'', op_key = KStr ''d'', op_value = JNum 4\<rparr>"
  let ?w = "healthy [(KStr ''b'', JNum 0), (KStr ''c'', JNum 3)]"
  note at_list = batch_skips_unrecognized
    [where ops = "[?put_a, ?patch, ?del_b, ?put_d]" and w = ?w and p = ?patch
       and xs = "[?put_a]" and ys = "[?del_b, ?put_d]"]
  have healthy: "tx_throws ?w = None \<and> (\<forall>n. fault ?w n = None)"
    by (simp add: healthy_def)
  have other: "op_type ?patch \<noteq> JStr ''put'' \<and> op_type ?patch \<noteq> JStr ''del''"
    by simp
  from at_list have "queued [?put_a, ?patch, ?del_b, ?put_d]
      = map request_of (filter recognized [?put_a, ?patch, ?del_b, ?put_d])"
    by (rule conjunct1)
  then have first: "queued [?put_a, ?patch, ?del_b, ?put_d]
      = [Put (KStr ''a'') (JNum 1), Delete (KStr ''b''), Put (KStr ''d'') (JNum 4)]"
    by (simp add: recognized_def request_of_def)
  from at_list healthy have "batch ?w [?put_a, ?patch, ?del_b, ?put_d]
      = ([], Resolved Empty, foldl apply_request (store ?w)
           (map request_of (filter recognized [?put_a, ?patch, ?del_b, ?put_d])))"
    by blast
  then have second: "batch ?w [?put_a, ?patch, ?del_b, ?put_d]
      = ([], Resolved Empty, [(KStr ''a'', JNum 1), (KStr ''c'', JNum 3), (KStr ''d'', JNum 4)])"
    by (simp add: recognized_def request_of_def healthy_def store_delete_def)
  from at_list other have "batch ?w ([?put_a] @ ?patch # [?del_b, ?put_d])
      = batch ?w ([?put_a] @ [?del_b, ?put_d])"
    by blast
  then have third: "batch ?w [?put_a, ?patch, ?del_b, ?put_d] = batch ?w [?put_a, ?del_b, ?put_d]"
    by simp
  from first second third show ?thesis by (intro conjI)
qed

section \<open>Properties of the cursor streaming pipeline\<close>

lemma matching_subset: "set (matching recs r prev) \<subseteq> set recs"
  by (auto simp: matching_def Let_def split: option.splits)

lemma store_get_record:
  "distinct (map fst recs) \<Longrightarrow> r \<in> set recs \<Longrightarrow> store_get recs (fst r) = Some r"
  using store_get_Some [of recs "fst r" "snd r"] by simp

lemma matching_lookup:
  assumes "distinct (map fst recs)"
  shows "\<forall>r \<in> set (matching recs kr prev). store_get recs (fst r) = Some r"
  using assms matching_subset [of recs kr prev] by (auto intro: store_get_record)

lemma deliveries_append: "deliveries (xs @ ys) = deliveries xs @ deliveries ys"
  by (induction xs rule: deliveries.induct) simp_all

lemma deliveries_steps: "deliveries (concat (map step ms)) = ms"
  by (induction ms) (simp_all add: step_def)

lemma deliveries_last_step: "deliveries (last_step r) = [r]"
  by (simp add: last_step_def)

text \<open>One turn of the loop on a healthy engine with \<^verbatim>\<open>ondata\<close> and \<^verbatim>\<open>onend\<close> attached.\<close>

lemma onSuccess_Cons:
  assumes "\<forall>m. fault w m = None" and "ondata h" and "onend h"
    and "store_get (store w) (fst r) = Some r"
  shows "onSuccess w h lim n c (map fst (r # rs))
       = (if limit_reached w lim c then last_step r
          else step r @ onSuccess w h lim (Suc (Suc n)) (count_after lim c) (map fst rs))"
  using assms by (simp add: step_def last_step_def split: prod.splits)

lemma limit_reached_num: "limit_reached w (JNum (int N)) c \<longleftrightarrow> Suc c = N"
  by (auto simp: limit_reached_def)

lemma onSuccess_falsy_limit:
  "\<not> truthy lim \<Longrightarrow> onSuccess w h lim n c ks = onSuccess w h JUndefined n c' ks"
  by (induction ks arbitrary: n)
    (simp_all add: limit_reached_def count_after_def split: option.splits)

lemma onSuccess_scan:
  assumes "\<forall>m. fault w m = None" and "ondata h" and "onend h" and "\<not> truthy lim"
    and "\<forall>r \<in> set ms. store_get (store w) (fst r) = Some r"
  shows "onSuccess w h lim n c (map fst ms) = concat (map step ms) @ [OnEnd]"
  using assms(5)
proof (induction ms arbitrary: n)
  case Nil
  then show ?case using assms(1,3) by simp
next
  case (Cons r rs)
  have lookup: "store_get (store w) (fst r) = Some r"
    using Cons.prems by simp
  have "\<not> limit_reached w lim c" and "count_after lim c = c"
    using assms(4) by (simp_all add: limit_reached_def count_after_def)
  then show ?case
    unfolding onSuccess_Cons [OF assms(1-3) lookup] using Cons by simp
qed

text \<open>
  With \<open>c\<close> records counted and \<open>d\<close> more to go before the limit \<open>N\<close>, the loop
  goes on for \<open>d\<close> records and ends at the next one.
\<close>

lemma onSuccess_limit:
  assumes "\<forall>m. fault w m = None" and "ondata h" and "onend h"
    and "\<forall>r \<in> set ms. store_get (store w) (fst r) = Some r"
    and "Suc (c + d) = N" and "d < length ms"
  shows "onSuccess w h (JNum (int N)) n c (map fst ms)
       = concat (map step (take d ms)) @ last_step (ms ! d)"
  using assms(4-6)
proof (induction ms arbitrary: n c d)
  case Nil
  then show ?case by simp
next
  case (Cons r rs)
  have lookup: "store_get (store w) (fst r) = Some r"
    using Cons.prems(1) by simp
  note head = onSuccess_Cons [OF assms(1-3) lookup]
  show ?case
  proof (cases d)
    case 0
    then have "limit_reached w (JNum (int N)) c"
      using Cons.prems(2) by (simp add: limit_reached_num)
    then show ?thesis
      unfolding head using 0 by simp
  next
    case (Suc d')
    then have not_yet: "\<not> limit_reached w (JNum (int N)) c"
      using Cons.prems(2) by (simp add: limit_reached_num)
    have "N \<noteq> 0" using Cons.prems(2) by auto
    then have after: "count_after (JNum (int N)) c = Suc c"
      by (simp add: count_after_def)
    have rest: "onSuccess w h (JNum (int N)) (Suc (Suc n)) (Suc c) (map fst rs)
        = concat (map step (take d' rs)) @ last_step (rs ! d')"
      using Cons.prems Suc by (intro Cons.IH) auto
    show ?thesis
      unfolding head after rest using not_yet Suc by simp
  qed
qed

text \<open>
  Claim C2: on a healthy engine, with \<^verbatim>\<open>ondata\<close> and \<^verbatim>\<open>onend\<close> attached, a limit
  \<open>N \<ge> 1\<close> and a range matching more than \<open>N\<close> records, \<^verbatim>\<open>read\<close> looks up and
  delivers each of the first \<open>N - 1\<close> records in cursor order and continues the
  cursor after each, then looks up and delivers the \<open>N\<close>-th and calls \<^verbatim>\<open>onend\<close> at
  once; nothing follows, so the cursor is not advanced again and \<^verbatim>\<open>ondata\<close> has been
  called for exactly the first \<open>N\<close> records.
\<close>

theorem read_limit:
  assumes "tx_throws w = None" and "\<forall>m. fault w m = None" and "distinct (map fst (store w))"
    and "ondata h" and "onend h"
    and "key_range o' = Inr kr"
    and "limit o' = JNum (int N)" and "1 \<le> N"
    and "N < length (matching (store w) kr (truthy (reverse o')))"
  shows "\<exists>tr. read w h o' = Streams tr
       \<and> tr = concat (map step (take (N - 1) (matching (store w) kr (truthy (reverse o')))))
           @ last_step (matching (store w) kr (truthy (reverse o')) ! (N - 1))
       \<and> deliveries tr = take N (matching (store w) kr (truthy (reverse o')))"
proof -
  let ?ms = "matching (store w) kr (truthy (reverse o'))"
  let ?tr = "concat (map step (take (N - 1) ?ms)) @ last_step (?ms ! (N - 1))"
  have "onSuccess w h (JNum (int N)) 0 0 (map fst ?ms) = ?tr"
    using assms by (intro onSuccess_limit matching_lookup) auto
  then have "read w h o' = Streams ?tr"
    using assms by (simp add: read_def getStore_def)
  moreover have "take (N - 1) ?ms @ [?ms ! (N - 1)] = take N ?ms"
    using assms(8,9) take_Suc_conv_app_nth [of "N - 1" ?ms] by simp
  then have "deliveries ?tr = take N ?ms"
    by (simp add: deliveries_append deliveries_steps deliveries_last_step)
  ultimately show ?thesis by simp
qed

lemma kx_key_range: "key_range kx_limit2 = Inr kx_bounds"
  by (simp add: key_range_def kx_limit2_def kx_bounds_def getRange_def no_options_def
      js_or_def is_defined_def)

lemma kx_matching:
  "matching kx_store kx_bounds False
     = [(KStr ''KX0'', JObj 1), (KStr ''KX1'', JObj 2), (KStr ''KX2'', JObj 3)]"
  by (simp add: matching_def kx_store_def kx_bounds_def in_range_def)

theorem read_limit_witness:
  "read (healthy kx_store) all_handlers kx_limit2
     = Streams [StoreGet (KStr ''KX0''), OnData (KStr ''KX0'') (JObj 1), Continue,
                StoreGet (KStr ''KX1''), OnData (KStr ''KX1'') (JObj 2), OnEnd]"
proof -
  have forwards: "truthy (reverse kx_limit2) = False"
    by (simp add: kx_limit2_def no_options_def)
  have "\<exists>tr. read (healthy kx_store) all_handlers kx_limit2 = Streams tr
       \<and> tr = concat (map step (take (2 - 1) (matching (store (healthy kx_store)) kx_bounds
              (truthy (reverse kx_limit2)))))
           @ last_step (matching (store (healthy kx_store)) kx_bounds
              (truthy (reverse kx_limit2)) ! (2 - 1))
       \<and> deliveries tr = take 2 (matching (store (healthy kx_store)) kx_bounds
              (truthy (reverse kx_limit2)))"
  proof (rule read_limit)
    show "distinct (map fst (store (healthy kx_store)))"
      by (simp add: healthy_def kx_store_def)
    show "key_range kx_limit2 = Inr kx_bounds" by (rule kx_key_range)
    show "limit kx_limit2 = JNum (int 2)" by (simp add: kx_limit2_def)
    show "2 < length (matching (store (healthy kx_store)) kx_bounds
              (truthy (reverse kx_limit2)))"
      unfolding forwards by (simp add: healthy_def kx_matching)
  qed (simp_all add: healthy_def all_handlers_def)
  then show ?thesis
    unfolding forwards by (simp add: healthy_def kx_matching step_def last_step_def)
qed

text \<open>
  Claim C10: with a falsy \<^verbatim>\<open>limit\<close> (0 included) \<^verbatim>\<open>read\<close> does what it does with
  no limit at all, whatever the engine answers; on a healthy engine, with \<^verbatim>\<open>ondata\<close> and
  \<^verbatim>\<open>onend\<close> attached, it looks up and delivers every record of the range in cursor
  order, continues the cursor after each, and calls \<^verbatim>\<open>onend\<close> when the cursor is
  exhausted.
\<close>

theorem read_falsy_limit:
  assumes "\<not> truthy (limit o')"
  shows "read w h o' = read w h (o'\<lparr>limit := JUndefined\<rparr>)
    \<and> (tx_throws w = None \<and> (\<forall>m. fault w m = None) \<and> distinct (map fst (store w))
         \<and> ondata h \<and> onend h \<and> key_range o' = Inr kr
       \<longrightarrow> read w h o'
           = Streams (concat (map step (matching (store w) kr (truthy (reverse o')))) @ [OnEnd]))"
proof (intro conjI impI)
  have "key_range (o'\<lparr>limit := JUndefined\<rparr>) = key_range o'"
    by (simp add: key_range_def getRange_def Let_def)
  then show "read w h o' = read w h (o'\<lparr>limit := JUndefined\<rparr>)"
    using onSuccess_falsy_limit [OF assms, of w h 0 0 _ 0]
    by (simp add: read_def split: sum.splits)
next
  assume a: "tx_throws w = None \<and> (\<forall>m. fault w m = None) \<and> distinct (map fst (store w))
         \<and> ondata h \<and> onend h \<and> key_range o' = Inr kr"
  let ?ms = "matching (store w) kr (truthy (reverse o'))"
  have "onSuccess w h (limit o') 0 0 (map fst ?ms) = concat (map step ?ms) @ [OnEnd]"
    using a assms by (intro onSuccess_scan matching_lookup) auto
  then show "read w h o' = Streams (concat (map step ?ms) @ [OnEnd])"
    using a by (simp add: read_def getStore_def)
qed

lemma kx0_key_range: "key_range kx_limit0 = Inr kx_bounds"
  by (simp add: key_range_def kx_limit0_def kx_bounds_def getRange_def no_options_def
      js_or_def is_defined_def)

theorem read_falsy_limit_witness:
  "read (healthy kx_store) all_handlers kx_limit0
     = Streams [StoreGet (KStr ''KX0''), OnData (KStr ''KX0'') (JObj 1), Continue,
                StoreGet (KStr ''KX1''), OnData (KStr ''KX1'') (JObj 2), Continue,
                StoreGet (KStr ''KX2''), OnData (KStr ''KX2'') (JObj 3), Continue, OnEnd]
   \<and> read (healthy kx_store) all_handlers kx_limit0
     = read (healthy kx_store) all_handlers (kx_limit0\<lparr>limit := JUndefined\<rparr>)"
proof -
  have forwards: "truthy (reverse kx_limit0) = False"
    by (simp add: kx_limit0_def no_options_def)
  have falsy: "\<not> truthy (limit kx_limit0)"
    by (simp add: kx_limit0_def)
  have pre: "tx_throws (healthy kx_store) = None \<and> (\<forall>m. fault (healthy kx_store) m = None)
      \<and> distinct (map fst (store (healthy kx_store)))
      \<and> ondata all_handlers \<and> onend all_handlers \<and> key_range kx_limit0 = Inr kx_bounds"
    by (simp add: healthy_def kx_store_def all_handlers_def kx0_key_range)
  from read_falsy_limit [OF falsy, of "healthy kx_store" all_handlers kx_bounds] pre
  show ?thesis
    unfolding forwards by (auto simp add: healthy_def kx_matching step_def)
qed

subsection \<open>The end of a stream\<close>

lemma onError_butlast: "e \<in> set (butlast (onError w h x)) \<Longrightarrow> \<not> is_terminal e"
  by (auto simp: onError_def split: if_splits)

text \<open>Whatever the engine answers, nothing before the last event of the loop is terminal.\<close>

lemma onSuccess_butlast:
  "e \<in> set (butlast (onSuccess w h lim n c ks)) \<Longrightarrow> \<not> is_terminal e"
proof (induction ks arbitrary: n c)
  case Nil
  then show ?case
    by (auto simp: onError_def split: option.splits if_splits)
next
  case (Cons k ks)
  show ?case
  proof (cases "fault w n")
    case (Some x)
    with Cons.prems show ?thesis by (auto dest: onError_butlast)
  next
    case None
    note cursor = None
    show ?thesis
    proof (cases "fault w (Suc n)")
      case (Some x)
      with cursor Cons.prems show ?thesis
        by (auto simp: onError_def split: if_splits)
    next
      case None
      note lookup = None
      show ?thesis
      proof (cases "store_get (store w) k")
        case None
        with cursor lookup Cons.prems show ?thesis by simp
      next
        case (Some r)
        obtain k' v where r: "r = (k', v)" by (cases r)
        show ?thesis
        proof (cases "limit_reached w lim c")
          case True
          with cursor lookup Some r Cons.prems show ?thesis
            by (auto split: if_splits)
        next
          case False
          let ?rest = "onSuccess w h lim (Suc (Suc n)) (count_after lim c) ks"
          have tr: "onSuccess w h lim n c (k # ks)
              = StoreGet k # (if ondata h then [OnData k' v] else []) @ Continue # ?rest"
            using cursor lookup Some r False by simp
          have "e \<in> set (butlast ?rest) \<or> \<not> is_terminal e"
            using Cons.prems unfolding tr
            by (auto simp: butlast_append split: if_splits)
          then show ?thesis using Cons.IH by blast
        qed
      qed
    qed
  qed
qed

lemma read_butlast:
  assumes "read w h o' = Streams tr"
  shows "\<forall>e \<in> set (butlast tr). \<not> is_terminal e"
  using assms onSuccess_butlast
  by (auto simp: read_def split: sum.splits)

lemma terminal_is_last:
  assumes "\<forall>e \<in> set (butlast tr). \<not> is_terminal e" and "i < length tr" and "is_terminal (tr ! i)"
  shows "Suc i = length tr"
proof (rule ccontr)
  assume "Suc i \<noteq> length tr"
  with assms(2) have short: "i < length (butlast tr)" by simp
  then have "butlast tr ! i \<in> set (butlast tr)" by (rule nth_mem)
  moreover have "butlast tr ! i = tr ! i" using short by (rule nth_butlast)
  ultimately show False using assms(1,3) by auto
qed

lemma quiet_terminal_count:
  assumes "\<forall>e \<in> set (butlast tr). \<not> is_terminal e"
  shows "length (filter is_terminal tr) \<le> 1"
proof (cases "tr = []")
  case True
  then show ?thesis by simp
next
  case False
  then have "tr = butlast tr @ [last tr]" by simp
  then have "filter is_terminal tr
      = filter is_terminal (butlast tr) @ filter is_terminal [last tr]"
    by (metis filter_append)
  moreover have "filter is_terminal (butlast tr) = []"
    using assms by (auto simp: filter_empty_conv)
  ultimately show ?thesis by simp
qed

text \<open>
  Claim C8: in every stream of \<^verbatim>\<open>read\<close>, whatever the engine answers and whichever
  callbacks are attached, a call of \<^verbatim>\<open>onend\<close> or \<^verbatim>\<open>onerror\<close> is the last thing the
  pipeline does: no event follows it, and the stream holds at most one such call, so
  \<^verbatim>\<open>onend\<close> fires at most once.
\<close>

theorem read_terminal_event:
  assumes "read w h o' = Streams tr" and "i < length tr" and "is_terminal (tr ! i)"
  shows "drop (Suc i) tr = [] \<and> length (filter is_terminal tr) \<le> 1"
proof
  note quiet = read_butlast [OF assms(1)]
  have "Suc i = length tr"
    using quiet assms(2,3) by (rule terminal_is_last)
  then show "drop (Suc i) tr = []" by simp
  show "length (filter is_terminal tr) \<le> 1"
    using quiet by (rule quiet_terminal_count)
qed

theorem read_terminal_event_witness:
  "read lookup_fails all_handlers no_options
     = Streams [StoreGet (KStr ''KW9''), OnData (KStr ''KW9'') (JObj 0), Continue,
                StoreGet (KStr ''KX0''), IndexedOnError (EngineError ''UnknownError''),
                OnError (EngineError ''UnknownError'')]
   \<and> drop 6 [StoreGet (KStr ''KW9''), OnData (KStr ''KW9'') (JObj 0), Continue,
                StoreGet (KStr ''KX0''), IndexedOnError (EngineError ''UnknownError''),
                OnError (EngineError ''UnknownError'')] = []
   \<and> length (filter is_terminal
               [StoreGet (KStr ''KW9''), OnData (KStr ''KW9'') (JObj 0), Continue,
                StoreGet (KStr ''KX0''), IndexedOnError (EngineError ''UnknownError''),
                OnError (EngineError ''UnknownError'')]) \<le> 1"
proof -
  let ?tr = "[StoreGet (KStr ''KW9''), OnData (KStr ''KW9'') (JObj 0), Continue,
                StoreGet (KStr ''KX0''), IndexedOnError (EngineError ''UnknownError''),
                OnError (EngineError ''UnknownError'')]"
  have stream: "read lookup_fails all_handlers no_options = Streams ?tr"
    by (simp add: read_def getStore_def key_range_def getRange_def no_options_def js_or_def
        matching_def lookup_fails_def kx_store_def all_handlers_def store_get_def
        limit_reached_def count_after_def onError_def)
  have "drop (Suc 5) ?tr = [] \<and> length (filter is_terminal ?tr) \<le> 1"
    by (rule read_terminal_event [OF stream]) simp_all
  with stream show ?thesis by simp
qed

section \<open>Properties of \<^verbatim>\<open>readAll\<close>\<close>

lemma map_of_map_set: "map_of (map_set rs k v) = (map_of rs)(k \<mapsto> v)"
  by (induction rs) auto

lemma keys_map_set:
  "map fst (map_set rs k v) = (if k \<in> fst ` set rs then map fst rs else map fst rs @ [k])"
  by (induction rs) (auto simp: rev_image_eqI)

lemma collected_snoc: "collected rs (kvs @ [p]) = map_set (collected rs kvs) (fst p) (snd p)"
  by (simp add: collected_def)

lemma collected_map_of: "map_of (collected [] kvs) = map_of (rev kvs)"
proof (induction kvs rule: rev_induct)
  case Nil
  then show ?case by (simp add: collected_def)
next
  case (snoc p kvs)
  then show ?case
    by (cases p) (simp add: collected_snoc map_of_map_set)
qed

lemma collected_keys: "map fst (collected [] kvs) = first_seen (map fst kvs)"
proof (induction kvs rule: rev_induct)
  case Nil
  then show ?case by (simp add: collected_def first_seen_def)
next
  case (snoc p kvs)
  have "fst ` set (collected [] kvs) = fst ` set kvs"
    using snoc by (metis first_seen_def list.set_map set_remdups set_rev)
  with snoc show ?case
    by (simp add: collected_snoc keys_map_set first_seen_def)
qed

text \<open>Before a terminal event the handlers of \<^verbatim>\<open>readAll\<close> only fill the map.\<close>

lemma handle_quiet:
  assumes "\<forall>e \<in> set tr. \<not> is_terminal e"
  shows "rows (foldl (handle w) s tr) = collected (rows s) (deliveries tr)
       \<and> settled (foldl (handle w) s tr) = settled s"
  using assms
proof (induction tr arbitrary: s)
  case Nil
  then show ?case by (simp add: collected_def)
next
  case (Cons e tr)
  then show ?case by (cases e) (simp_all add: collected_def)
qed

text \<open>
  With \<^verbatim>\<open>onerror\<close> and \<^verbatim>\<open>onend\<close> attached and every key of the cursor in the store,
  the loop ends in a terminal event.
\<close>

lemma onSuccess_ends:
  assumes "onerror h" and "onend h" and "\<forall>k \<in> set ks. store_get (store w) k \<noteq> None"
  shows "onSuccess w h lim n c ks \<noteq> [] \<and> is_terminal (last (onSuccess w h lim n c ks))"
  using assms(3)
proof (induction ks arbitrary: n c)
  case Nil
  then show ?case using assms(1,2) by (simp add: onError_def split: option.splits)
next
  case (Cons k ks)
  then have "onSuccess w h lim (Suc (Suc n)) (count_after lim c) ks \<noteq> []
     \<and> is_terminal (last (onSuccess w h lim (Suc (Suc n)) (count_after lim c) ks))"
    by simp
  with Cons.prems show ?case
    using assms(1,2) by (auto simp: onError_def split: option.splits)
qed

lemma read_ends:
  assumes "read w all_handlers o' = Streams tr"
  shows "tr \<noteq> [] \<and> is_terminal (last tr)"
proof -
  have "\<forall>k \<in> set (map fst (matching (store w) kr prev)). store_get (store w) k \<noteq> None"
    for kr prev
    using matching_subset [of "store w" kr prev] by (auto simp: store_get_None)
  then show ?thesis
    using assms onSuccess_ends [of all_handlers _ w]
    by (auto simp: read_def all_handlers_def split: sum.splits)
qed

text \<open>
  Claim C6: let \<open>tr\<close> be the stream of \<^verbatim>\<open>read(options)\<close> with the three handlers of
  \<^verbatim>\<open>readAll\<close> attached. When \<^verbatim>\<open>onend\<close> fires, \<^verbatim>\<open>readAll\<close> resolves
  \<^verbatim>\<open>{ data: m }\<close>, where the keys of \<open>m\<close> are the keys delivered, each once, in the
  order of their first delivery, and \<open>m\<close> maps a key to the value delivered last for it.
  When \<^verbatim>\<open>onerror\<close> fires with \<open>e\<close>, \<^verbatim>\<open>readAll\<close> resolves \<^verbatim>\<open>{ err: e }\<close>. One of
  the two happens.
\<close>

theorem readAll_aggregates:
  assumes "read w all_handlers o' = Streams tr"
  shows "(OnEnd \<in> set tr \<longrightarrow>
           (\<exists>m. snd (readAll w o') = Resolved (Data m)
              \<and> map fst m = first_seen (map fst (deliveries tr))
              \<and> map_of m = map_of (rev (deliveries tr))))
       \<and> (\<forall>e. OnError e \<in> set tr \<longrightarrow> snd (readAll w o') = Resolved (Err e))
       \<and> (OnEnd \<in> set tr \<or> (\<exists>e. OnError e \<in> set tr))"
proof -
  note quiet = read_butlast [OF assms]
  from read_ends [OF assms] have ne: "tr \<noteq> []" and fin: "is_terminal (last tr)"
    by simp_all
  let ?init = "\<lparr>rows = [], settled = Pending, notified = []\<rparr>"
  let ?seen = "foldl (handle w) ?init (butlast tr)"
  have parts: "tr = butlast tr @ [last tr]" using ne by simp
  have rows: "rows ?seen = collected [] (deliveries (butlast tr))"
    and pending: "settled ?seen = Pending"
    using handle_quiet [OF quiet, of w ?init] by simp_all
  have all: "foldl (handle w) ?init tr = handle w ?seen (last tr)"
    by (subst parts) (simp del: append_butlast_last_id)
  have result: "snd (readAll w o') = settled (handle w ?seen (last tr))"
    using assms all by (simp add: readAll_def Let_def)
  have deliv: "deliveries tr = deliveries (butlast tr)"
    using fin
    by (subst parts) (cases "last tr"; simp add: deliveries_append del: append_butlast_last_id)
  have only_last: "e = last tr" if "e \<in> set tr" and "is_terminal e" for e
  proof -
    from that(1) obtain i where i: "i < length tr" "tr ! i = e"
      by (auto simp: in_set_conv_nth)
    then have "Suc i = length tr"
      using terminal_is_last [OF quiet, of i] that(2) by simp
    then have "length tr - 1 = i" by simp
    with i ne show ?thesis by (simp add: last_conv_nth)
  qed
  show ?thesis
  proof (intro conjI impI allI)
    assume "OnEnd \<in> set tr"
    then have "last tr = OnEnd" using only_last [of OnEnd] by simp
    then have "snd (readAll w o') = Resolved (Data (collected [] (deliveries tr)))"
      using result rows pending deliv by (simp add: resolve_def)
    then show "\<exists>m. snd (readAll w o') = Resolved (Data m)
              \<and> map fst m = first_seen (map fst (deliveries tr))
              \<and> map_of m = map_of (rev (deliveries tr))"
      by (simp add: collected_keys collected_map_of)
  next
    fix e
    assume "OnError e \<in> set tr"
    then have "last tr = OnError e" using only_last [of "OnError e"] by simp
    then show "snd (readAll w o') = Resolved (Err e)"
      using result pending by (simp add: resolve_def)
  next
    have "last tr \<in> set tr" using ne by simp
    with fin show "OnEnd \<in> set tr \<or> (\<exists>e. OnError e \<in> set tr)"
      by (cases "last tr") auto
  qed
qed

theorem readAll_aggregates_witness:
  "read (healthy kx_store) all_handlers kx_limit2
     = Streams [StoreGet (KStr ''KX0''), OnData (KStr ''KX0'') (JObj 1), Continue,
                StoreGet (KStr ''KX1''), OnData (KStr ''KX1'') (JObj 2), OnEnd]
   \<and> (\<exists>m. snd (readAll (healthy kx_store) kx_limit2) = Resolved (Data m)
         \<and> map fst m = [KStr ''KX0'', KStr ''KX1'']
         \<and> map_of m (KStr ''KX0'') = Some (JObj 1) \<and> map_of m (KStr ''KX1'') = Some (JObj 2))
   \<and> snd (readAll lookup_fails no_options) = Resolved (Err (EngineError ''UnknownError''))"
proof -
  let ?good = "[StoreGet (KStr ''KX0''), OnData (KStr ''KX0'') (JObj 1), Continue,
                StoreGet (KStr ''KX1''), OnData (KStr ''KX1'') (JObj 2), OnEnd]"
  let ?bad = "[StoreGet (KStr ''KW9''), OnData (KStr ''KW9'') (JObj 0), Continue,
                StoreGet (KStr ''KX0''), IndexedOnError (EngineError ''UnknownError''),
                OnError (EngineError ''UnknownError'')]"
  have "limit kx_limit2 = JNum 2" and "reverse kx_limit2 = JUndefined"
    by (simp_all add: kx_limit2_def no_options_def)
  then have good: "read (healthy kx_store) all_handlers kx_limit2 = Streams ?good"
    by (simp add: read_def getStore_def kx_key_range healthy_def matching_def kx_bounds_def
        in_range_def store_get_def kx_store_def all_handlers_def limit_reached_def
        count_after_def)
  have bad: "read lookup_fails all_handlers no_options = Streams ?bad"
    by (simp add: read_def getStore_def key_range_def getRange_def no_options_def js_or_def
        matching_def lookup_fails_def kx_store_def all_handlers_def store_get_def
        limit_reached_def count_after_def onError_def)
  from readAll_aggregates [OF good] readAll_aggregates [OF bad] good
  show ?thesis by (auto simp add: first_seen_def)
qed

text \<open>
  When \<^verbatim>\<open>read\<close> rejects (the transaction cannot be created, or the range is
  invalid), nothing settles the promise of \<^verbatim>\<open>readAll\<close>.
\<close>

lemma readAll_pending:
  "read w all_handlers o' = Rejects e \<Longrightarrow> readAll w o' = ([], Pending)"
  by (simp add: readAll_def)

end
